theory Spec2Isabelle
  imports Main
begin

section \<open>Python values used by the checkpoint retainers\<close>

text \<open>
  The two classes of \<^verbatim>\<open>parakeet/training/checkpoint.py\<close>, \<^verbatim>\<open>KBest\<close> and
  \<^verbatim>\<open>KLatest\<close>, are embedded with explicit state passing.  An exception is a value of
  type \<open>error\<close>; the object keeps every mutation made before the exception was raised,
  so a method returns the outcome together with the state it leaves behind.
\<close>

datatype error = ValueError | IndexError | KeyError | TypeError | OSError

text \<open>
  The callbacks \<^verbatim>\<open>save_fn\<close> and \<^verbatim>\<open>del_fn\<close> belong to the caller.  Every invocation
  is appended to a log of calls; a callback either returns (\<open>None\<close>) or raises
  (\<open>Some e\<close>), and its outcome may depend on the identifier and on all calls made before.
\<close>

datatype 'k call = Save 'k | Delete 'k

type_synonym 'k callback = "'k call list \<Rightarrow> 'k \<Rightarrow> error option"

definition invoke ::
  "'k callback \<Rightarrow> ('k \<Rightarrow> 'k call) \<Rightarrow> 'k \<Rightarrow> 'k call list \<Rightarrow> error option \<times> 'k call list" where
  "invoke f tag k calls = (f calls k, calls @ [tag k])"

text \<open>Two callbacks for concrete runs: one that always returns and one that always raises
  the given exception.\<close>

definition returns :: "'k callback" where
  "returns calls k = None"


subsection \<open>Dictionaries in insertion order\<close>

text \<open>
  A Python \<^verbatim>\<open>dict\<close> iterates in insertion order, so it is an association list whose keys
  are distinct.  \<^verbatim>\<open>d[k] = v\<close> overwrites the value in place when the key exists and appends
  the pair otherwise; \<^verbatim>\<open>d.pop(k)\<close> removes the entry of the key.
\<close>

fun dict_set :: "'k \<Rightarrow> 'v \<Rightarrow> ('k \<times> 'v) list \<Rightarrow> ('k \<times> 'v) list" where
  "dict_set k v [] = [(k, v)]"
| "dict_set k v (p # d) = (if fst p = k then (k, v) # d else p # dict_set k v d)"

fun dict_pop :: "'k \<Rightarrow> ('k \<times> 'v) list \<Rightarrow> ('k \<times> 'v) list" where
  "dict_pop k [] = []"
| "dict_pop k (p # d) = (if fst p = k then d else p # dict_pop k d)"

text \<open>
  \<^verbatim>\<open>max(d, key=d.get)\<close> walks the keys in iteration order and replaces the candidate only
  by a strictly greater one, so the first key of maximal value wins; on an empty dictionary
  it raises \<^verbatim>\<open>ValueError\<close>.  Scores are taken from a linear order (floats without NaN).
\<close>

fun max_from :: "'k \<times> 's \<Rightarrow> ('k \<times> 's::linorder) list \<Rightarrow> 'k \<times> 's" where
  "max_from b [] = b"
| "max_from b (p # d) = max_from (if snd b < snd p then p else b) d"

fun dict_max_key :: "('k \<times> 's::linorder) list \<Rightarrow> error + 'k" where
  "dict_max_key [] = Inl ValueError"
| "dict_max_key (p # d) = Inr (fst (max_from p d))"

section \<open>The retainers\<close>

text \<open>
  Both constructors store the same four attributes; \<^verbatim>\<open>save_fn\<close> defaults to \<^verbatim>\<open>None\<close>,
  and calling \<^verbatim>\<open>None\<close> raises \<^verbatim>\<open>TypeError\<close>.
\<close>

record 'k retainer =
  save_fn :: "'k callback option"
  del_fn :: "'k callback"
  max_size :: int
  save_all :: bool

record ('k, 's) KBest = "'k retainer" +
  best_records :: "('k \<times> 's) list"

record 'k KLatest = "'k retainer" +
  latest_records :: "'k list"

type_synonym ('k, 's) KBest_state = "('k, 's) KBest \<times> 'k call list"

type_synonym 'k KLatest_state = "'k KLatest \<times> 'k call list"

subsection \<open>KBest\<close>

definition KBest_init :: "int \<Rightarrow> 'k callback option \<Rightarrow> 'k callback \<Rightarrow> ('k, 's) KBest" where
  "KBest_init m sf df =
     \<lparr>save_fn = sf, del_fn = df, max_size = m, save_all = (m = - 1), best_records = []\<rparr>"

text \<open>The constructor call as an expression that could raise: \<^verbatim>\<open>__init__\<close> has no
  \<^verbatim>\<open>raise\<close> and calls nothing, so it always yields the object.\<close>

definition KBest_new ::
  "int \<Rightarrow> 'k callback option \<Rightarrow> 'k callback \<Rightarrow> error + ('k, 's) KBest" where
  "KBest_new m sf df = Inr (KBest_init m sf df)"

definition KBest_full :: "('k, 's) KBest \<Rightarrow> bool" where
  "KBest_full self = (\<not> save_all self \<and> int (length (best_records self)) = max_size self)"

definition KBest_should_save :: "'s::linorder \<Rightarrow> ('k, 's) KBest \<Rightarrow> error + bool" where
  "KBest_should_save metric self =
     (if \<not> KBest_full self then Inr True
      else case dict_max_key (best_records self) of
             Inl e \<Rightarrow> Inl e
           | Inr worst_record_path \<Rightarrow>
               (case map_of (best_records self) worst_record_path of
                  None \<Rightarrow> Inl KeyError
                | Some worst_metric \<Rightarrow> Inr (metric < worst_metric)))"

text \<open>Lines 88 to 92, "remove the worst": the entry is popped first, then \<^verbatim>\<open>del_fn\<close>
  is called on its key.\<close>

definition KBest_remove_worst ::
  "('k, 's::linorder) KBest_state \<Rightarrow> error option \<times> ('k, 's) KBest_state" where
  "KBest_remove_worst st =
     (case st of (self, calls) \<Rightarrow>
        if KBest_full self then
          (case dict_max_key (best_records self) of
             Inl e \<Rightarrow> (Some e, (self, calls))
           | Inr worst_record_path \<Rightarrow>
               (let self1 = self\<lparr>best_records := dict_pop worst_record_path (best_records self)\<rparr>;
                    (r, calls1) = invoke (del_fn self1) Delete worst_record_path calls
                in (r, (self1, calls1))))
        else (None, (self, calls)))"

text \<open>Lines 95 and 96, "add the new one": \<^verbatim>\<open>save_fn\<close> is called, then the pair is
  stored.\<close>

definition KBest_add_new ::
  "'s \<Rightarrow> 'k \<Rightarrow> ('k, 's) KBest_state \<Rightarrow> error option \<times> ('k, 's) KBest_state" where
  "KBest_add_new metric path st =
     (case st of (self, calls) \<Rightarrow>
        (case save_fn self of
           None \<Rightarrow> (Some TypeError, (self, calls))
         | Some f \<Rightarrow>
             (case invoke f Save path calls of
                (Some e, calls1) \<Rightarrow> (Some e, (self, calls1))
              | (None, calls1) \<Rightarrow>
                  (None, (self\<lparr>best_records := dict_set path metric (best_records self)\<rparr>, calls1)))))"

definition KBest_save_checkpoint_and_update ::
  "'s::linorder \<Rightarrow> 'k \<Rightarrow> ('k, 's) KBest_state \<Rightarrow> error option \<times> ('k, 's) KBest_state" where
  "KBest_save_checkpoint_and_update metric path st =
     (case KBest_remove_worst st of
        (Some e, st1) \<Rightarrow> (Some e, st1)
      | (None, st1) \<Rightarrow> KBest_add_new metric path st1)"

definition KBest_add_checkpoint ::
  "'s::linorder \<Rightarrow> 'k \<Rightarrow> ('k, 's) KBest_state \<Rightarrow> error option \<times> ('k, 's) KBest_state" where
  "KBest_add_checkpoint metric path st =
     (case KBest_should_save metric (fst st) of
        Inl e \<Rightarrow> (Some e, st)
      | Inr True \<Rightarrow> KBest_save_checkpoint_and_update metric path st
      | Inr False \<Rightarrow> (None, st))"

text \<open>The caller's loop of the docstring, \<^verbatim>\<open>for ...: kbest_manager.add_checkpoint(score, path)\<close>:
  an exception leaves the loop.\<close>

fun KBest_offers ::
  "('s::linorder \<times> 'k) list \<Rightarrow> ('k, 's) KBest_state \<Rightarrow> error option \<times> ('k, 's) KBest_state" where
  "KBest_offers [] st = (None, st)"
| "KBest_offers (o1 # rest) st =
     (case KBest_add_checkpoint (fst o1) (snd o1) st of
        (Some e, st1) \<Rightarrow> (Some e, st1)
      | (None, st1) \<Rightarrow> KBest_offers rest st1)"

text \<open>A caller that catches the exception of an offer and goes on with the next one.\<close>

fun KBest_offers_resumed ::
  "('s::linorder \<times> 'k) list \<Rightarrow> ('k, 's) KBest_state \<Rightarrow> ('k, 's) KBest_state" where
  "KBest_offers_resumed [] st = st"
| "KBest_offers_resumed (o1 # rest) st =
     KBest_offers_resumed rest (snd (KBest_add_checkpoint (fst o1) (snd o1) st))"

subsection \<open>KLatest\<close>

definition KLatest_init :: "int \<Rightarrow> 'k callback option \<Rightarrow> 'k callback \<Rightarrow> 'k KLatest" where
  "KLatest_init m sf df =
     \<lparr>save_fn = sf, del_fn = df, max_size = m, save_all = (m = - 1), latest_records = []\<rparr>"

definition KLatest_new :: "int \<Rightarrow> 'k callback option \<Rightarrow> 'k callback \<Rightarrow> error + 'k KLatest" where
  "KLatest_new m sf df = Inr (KLatest_init m sf df)"

definition KLatest_full :: "'k KLatest \<Rightarrow> bool" where
  "KLatest_full self = (\<not> save_all self \<and> int (length (latest_records self)) = max_size self)"

text \<open>Lines 157 to 159, "remove the earliest": \<^verbatim>\<open>pop(0)\<close> raises \<^verbatim>\<open>IndexError\<close> on an
  empty list; the popped identifier is then handed to \<^verbatim>\<open>del_fn\<close>.\<close>

definition KLatest_remove_earliest :: "'k KLatest_state \<Rightarrow> error option \<times> 'k KLatest_state" where
  "KLatest_remove_earliest st =
     (case st of (self, calls) \<Rightarrow>
        if KLatest_full self then
          (case latest_records self of
             [] \<Rightarrow> (Some IndexError, (self, calls))
           | eariest_record_path # remaining \<Rightarrow>
               (let self1 = self\<lparr>latest_records := remaining\<rparr>;
                    (r, calls1) = invoke (del_fn self1) Delete eariest_record_path calls
                in (r, (self1, calls1))))
        else (None, (self, calls)))"

definition KLatest_add_new :: "'k \<Rightarrow> 'k KLatest_state \<Rightarrow> error option \<times> 'k KLatest_state" where
  "KLatest_add_new path st =
     (case st of (self, calls) \<Rightarrow>
        (case save_fn self of
           None \<Rightarrow> (Some TypeError, (self, calls))
         | Some f \<Rightarrow>
             (case invoke f Save path calls of
                (Some e, calls1) \<Rightarrow> (Some e, (self, calls1))
              | (None, calls1) \<Rightarrow>
                  (None, (self\<lparr>latest_records := latest_records self @ [path]\<rparr>, calls1)))))"

definition KLatest_save_checkpoint_and_update ::
  "'k \<Rightarrow> 'k KLatest_state \<Rightarrow> error option \<times> 'k KLatest_state" where
  "KLatest_save_checkpoint_and_update path st =
     (case KLatest_remove_earliest st of
        (Some e, st1) \<Rightarrow> (Some e, st1)
      | (None, st1) \<Rightarrow> KLatest_add_new path st1)"

definition KLatest_add_checkpoint ::
  "'k \<Rightarrow> 'k KLatest_state \<Rightarrow> error option \<times> 'k KLatest_state" where
  "KLatest_add_checkpoint path st = KLatest_save_checkpoint_and_update path st"

fun KLatest_offers :: "'k list \<Rightarrow> 'k KLatest_state \<Rightarrow> error option \<times> 'k KLatest_state" where
  "KLatest_offers [] st = (None, st)"
| "KLatest_offers (path # rest) st =
     (case KLatest_add_checkpoint path st of
        (Some e, st1) \<Rightarrow> (Some e, st1)
      | (None, st1) \<Rightarrow> KLatest_offers rest st1)"

fun KLatest_offers_resumed :: "'k list \<Rightarrow> 'k KLatest_state \<Rightarrow> 'k KLatest_state" where
  "KLatest_offers_resumed [] st = st"
| "KLatest_offers_resumed (path # rest) st =
     KLatest_offers_resumed rest (snd (KLatest_add_checkpoint path st))"

section \<open>The reference simulation of the Best-K policy\<close>

text \<open>
  The specification describes the Best-K retainer as an online simulation over the retained
  map: an offer is accepted when there is free capacity or when its score is strictly lower
  than the worst retained score; an accepted offer at capacity first evicts the worst-scoring
  retained identifier (the first one in insertion order among equals), then inserts the pair.
  These definitions follow those words, not the code.
\<close>

definition ref_worst_score :: "('k \<times> 's::linorder) list \<Rightarrow> 's" where
  "ref_worst_score m = Max (snd ` set m)"

definition ref_worst :: "('k \<times> 's::linorder) list \<Rightarrow> 'k" where
  "ref_worst m = fst (hd (filter (\<lambda>p. snd p = ref_worst_score m) m))"

definition ref_offer :: "nat \<Rightarrow> ('k \<times> 's::linorder) list \<Rightarrow> 's \<times> 'k \<Rightarrow> ('k \<times> 's) list" where
  "ref_offer K m x =
     (if length m < K then dict_set (snd x) (fst x) m
      else if fst x < ref_worst_score m then dict_set (snd x) (fst x) (dict_pop (ref_worst m) m)
      else m)"

text \<open>An entry is a top entry of a dictionary when no entry has a greater score.\<close>

definition top_score :: "('k \<times> 's::linorder) list \<Rightarrow> 'k \<times> 's \<Rightarrow> bool" where
  "top_score m p = (\<forall>q \<in> set m. snd q \<le> snd p)"

section \<open>Reading the log of calls\<close>

text \<open>The identifiers \<^verbatim>\<open>save_fn\<close> was called with, and those \<^verbatim>\<open>del_fn\<close> was called with,
  each in the order of the calls.\<close>

fun saved :: "'k call list \<Rightarrow> 'k list" where
  "saved [] = []"
| "saved (Save k # cs) = k # saved cs"
| "saved (Delete k # cs) = saved cs"

fun deleted :: "'k call list \<Rightarrow> 'k list" where
  "deleted [] = []"
| "deleted (Save k # cs) = deleted cs"
| "deleted (Delete k # cs) = k # deleted cs"

section \<open>Dictionaries and the worst record\<close>

lemma max_from_first_top:
  "max_from b d = hd (filter (top_score (b # d)) (b # d))"
proof (induction d arbitrary: b)
  case Nil
  show ?case by (simp add: top_score_def)
next
  case (Cons p d)
  show ?case
  proof (cases "snd b < snd p")
    case True
    have nb: "\<not> top_score (b # p # d) b" using True by (auto simp: top_score_def)
    have eq: "\<And>q. q \<in> set (p # d) \<Longrightarrow> top_score (b # p # d) q = top_score (p # d) q"
      using True by (auto simp: top_score_def)
    have "filter (top_score (b # p # d)) (p # d) = filter (top_score (p # d)) (p # d)"
      by (rule filter_cong[OF refl]) (rule eq)
    then show ?thesis using True nb Cons.IH[of p] by simp
  next
    case False
    show ?thesis
    proof (cases "top_score (b # d) b")
      case True
      then have "top_score (b # p # d) b" using False by (auto simp: top_score_def)
      then show ?thesis using False True Cons.IH[of b] by simp
    next
      case nt: False
      then have nb: "\<not> top_score (b # p # d) b" by (auto simp: top_score_def)
      have np: "\<not> top_score (b # p # d) p" using nt False by (fastforce simp: top_score_def)
      have eq: "\<And>q. q \<in> set d \<Longrightarrow> top_score (b # p # d) q = top_score (b # d) q"
        using False by (fastforce simp: top_score_def)
      have "filter (top_score (b # p # d)) d = filter (top_score (b # d)) d"
        by (rule filter_cong[OF refl]) (rule eq)
      then show ?thesis using False nt nb np Cons.IH[of b] by simp
    qed
  qed
qed

lemma max_from_mem: "max_from b d \<in> set (b # d)"
  by (induction d arbitrary: b) auto

lemma max_from_ge_start: "snd b \<le> snd (max_from b d)"
proof (induction d arbitrary: b)
  case Nil show ?case by simp
next
  case (Cons p d)
  have "snd (if snd b < snd p then p else b) \<le> snd (max_from (if snd b < snd p then p else b) d)"
    by (rule Cons.IH)
  then show ?case by (auto split: if_splits)
qed

lemma max_from_ge: "q \<in> set d \<Longrightarrow> snd q \<le> snd (max_from b d)"
proof (induction d arbitrary: b)
  case Nil then show ?case by simp
next
  case (Cons p d)
  show ?case
  proof (cases "q = p")
    case True
    have "snd (if snd b < snd p then p else b) \<le> snd (max_from (if snd b < snd p then p else b) d)"
      by (rule max_from_ge_start)
    then show ?thesis using True by (auto split: if_splits)
  next
    case False
    then have "q \<in> set d" using Cons.prems by simp
    then show ?thesis using Cons.IH by simp
  qed
qed

lemma top_score_iff_Max:
  assumes "q \<in> set m"
  shows "top_score m q \<longleftrightarrow> snd q = ref_worst_score m"
proof
  assume "top_score m q"
  then have "Max (snd ` set m) = snd q" using assms
    by (intro Max_eqI) (auto simp: top_score_def)
  then show "snd q = ref_worst_score m" by (simp add: ref_worst_score_def)
next
  assume "snd q = ref_worst_score m"
  then show "top_score m q" by (auto simp: top_score_def ref_worst_score_def)
qed

lemma max_from_first_worst:
  "max_from b d = hd (filter (\<lambda>p. snd p = ref_worst_score (b # d)) (b # d))"
proof -
  have "filter (top_score (b # d)) (b # d) = filter (\<lambda>p. snd p = ref_worst_score (b # d)) (b # d)"
    by (rule filter_cong[OF refl]) (rule top_score_iff_Max)
  then show ?thesis using max_from_first_top[of b d] by simp
qed

lemma snd_max_from: "snd (max_from b d) = ref_worst_score (b # d)"
proof -
  have "Max (snd ` set (b # d)) = snd (max_from b d)"
  proof (rule Max_eqI)
    show "finite (snd ` set (b # d))" by simp
    show "\<And>y. y \<in> snd ` set (b # d) \<Longrightarrow> y \<le> snd (max_from b d)"
      using max_from_ge[of _ d b] max_from_ge_start[of b d] by auto
    show "snd (max_from b d) \<in> snd ` set (b # d)"
      using max_from_mem[of b d] by (intro imageI)
  qed
  then show ?thesis by (simp add: ref_worst_score_def)
qed

lemma dict_max_key_ref: "m \<noteq> [] \<Longrightarrow> dict_max_key m = Inr (ref_worst m)"
  by (cases m) (simp_all add: ref_worst_def max_from_first_worst del: max_from.simps)

lemma dict_max_key_mem: "dict_max_key m = Inr k \<Longrightarrow> k \<in> fst ` set m"
proof (cases m)
  case Nil
  assume "dict_max_key m = Inr k"
  then show ?thesis using Nil by simp
next
  case (Cons b d)
  assume "dict_max_key m = Inr k"
  then have "k = fst (max_from b d)" using Cons by simp
  moreover have "max_from b d \<in> set m" using max_from_mem[of b d] Cons by simp
  ultimately show ?thesis by (simp del: max_from.simps)
qed

lemma map_of_worst:
  assumes "m \<noteq> []" "distinct (map fst m)"
  shows "map_of m (ref_worst m) = Some (ref_worst_score m)"
proof -
  obtain b d where m: "m = b # d" using assms(1) by (cases m) auto
  have w: "ref_worst m = fst (max_from b d)"
    by (simp add: m ref_worst_def max_from_first_worst del: max_from.simps)
  have "max_from b d \<in> set m" using max_from_mem[of b d] m by simp
  then have "(fst (max_from b d), snd (max_from b d)) \<in> set m" by simp
  then have "map_of m (fst (max_from b d)) = Some (snd (max_from b d))"
    using assms(2) by (rule_tac map_of_is_SomeI)
  then show ?thesis using w snd_max_from[of b d] m by simp
qed

lemma length_dict_set:
  "length (dict_set k v d) = (if k \<in> fst ` set d then length d else Suc (length d))"
  by (induction d) auto

lemma length_dict_pop:
  "length (dict_pop k d) = (if k \<in> fst ` set d then length d - 1 else length d)"
proof (induction d)
  case Nil show ?case by simp
next
  case (Cons p d)
  have "k \<in> fst ` set d \<Longrightarrow> 0 < length d" by (cases d) auto
  then show ?case using Cons by auto
qed

lemma keys_dict_set: "fst ` set (dict_set k v d) = insert k (fst ` set d)"
  by (induction d) auto

lemma keys_dict_pop_subset: "fst ` set (dict_pop k d) \<subseteq> fst ` set d"
  by (induction d) auto

lemma distinct_dict_set: "distinct (map fst d) \<Longrightarrow> distinct (map fst (dict_set k v d))"
proof (induction d)
  case Nil show ?case by simp
next
  case (Cons p d)
  then show ?case using keys_dict_set[of k v d] by (auto simp del: keys_dict_set)
qed

lemma distinct_dict_pop: "distinct (map fst d) \<Longrightarrow> distinct (map fst (dict_pop k d))"
proof (induction d)
  case Nil show ?case by simp
next
  case (Cons p d)
  then show ?case using keys_dict_pop_subset[of k d] by auto
qed

lemma KBest_init_fields:
  "save_fn (KBest_init m sf df) = sf" "del_fn (KBest_init m sf df) = df"
  "max_size (KBest_init m sf df) = m" "save_all (KBest_init m sf df) = (m = - 1)"
  "best_records (KBest_init m sf df) = []"
  by (simp_all add: KBest_init_def)

lemma KLatest_init_fields:
  "save_fn (KLatest_init m sf df) = sf" "del_fn (KLatest_init m sf df) = df"
  "max_size (KLatest_init m sf df) = m" "save_all (KLatest_init m sf df) = (m = - 1)"
  "latest_records (KLatest_init m sf df) = []"
  by (simp_all add: KLatest_init_def)

lemma saved_append: "saved (cs @ ds) = saved cs @ saved ds"
  by (induction cs rule: saved.induct) simp_all

lemma deleted_append: "deleted (cs @ ds) = deleted cs @ deleted ds"
  by (induction cs rule: deleted.induct) simp_all

section \<open>Best-K against the reference simulation\<close>

lemma ref_offer_length:
  assumes "1 \<le> K" "length m \<le> K"
  shows "length (ref_offer K m x) \<le> K"
proof (cases "length m < K")
  case True
  then show ?thesis by (simp add: ref_offer_def length_dict_set)
next
  case False
  then have full: "length m = K" using assms by simp
  then have ne: "m \<noteq> []" using assms by auto
  have "ref_worst m \<in> fst ` set m"
    by (rule dict_max_key_mem[OF dict_max_key_ref[OF ne]])
  then have "length (dict_pop (ref_worst m) m) = K - 1" using full by (simp add: length_dict_pop)
  then have "length (dict_set (snd x) (fst x) (dict_pop (ref_worst m) m)) \<le> K"
    using assms(1) by (simp add: length_dict_set)
  then show ?thesis using False assms by (simp add: ref_offer_def)
qed

lemma ref_offer_distinct:
  "distinct (map fst m) \<Longrightarrow> distinct (map fst (ref_offer K m x))"
  by (simp add: ref_offer_def distinct_dict_set distinct_dict_pop)

lemma KBest_add_checkpoint_ref:
  assumes K: "1 \<le> K" and len: "length (best_records self) \<le> K"
    and dist: "distinct (map fst (best_records self))"
    and ms: "max_size self = int K" and sa: "\<not> save_all self"
    and sf: "save_fn self = Some sf"
    and sok: "\<forall>c k. sf c k = None" and dok: "\<forall>c k. del_fn self c k = None"
  shows "\<exists>calls'. KBest_add_checkpoint s k (self, calls) =
           (None, (self\<lparr>best_records := ref_offer K (best_records self) (s, k)\<rparr>, calls'))"
proof (cases "length (best_records self) < K")
  case True
  then have nf: "\<not> KBest_full self" using ms by (simp add: KBest_full_def)
  show ?thesis using nf True sf sok
    by (simp add: KBest_add_checkpoint_def KBest_should_save_def
        KBest_save_checkpoint_and_update_def KBest_remove_worst_def KBest_add_new_def
        invoke_def ref_offer_def)
next
  case False
  then have eq: "length (best_records self) = K" using len by simp
  then have full: "KBest_full self" using ms sa by (simp add: KBest_full_def)
  have ne: "best_records self \<noteq> []" using eq K by auto
  note mk = dict_max_key_ref[OF ne]
  note mo = map_of_worst[OF ne dist]
  show ?thesis
  proof (cases "s < ref_worst_score (best_records self)")
    case True
    show ?thesis using full False True sf sok dok mk mo
      by (simp add: KBest_add_checkpoint_def KBest_should_save_def
          KBest_save_checkpoint_and_update_def KBest_remove_worst_def KBest_add_new_def
          invoke_def ref_offer_def)
  next
    case nt: False
    show ?thesis using full False nt mk mo
      by (simp add: KBest_add_checkpoint_def KBest_should_save_def ref_offer_def)
  qed
qed

lemma KBest_offers_ref:
  assumes K: "1 \<le> K" and sok: "\<forall>c k. sf c k = None"
  shows "length (best_records self) \<le> K \<Longrightarrow> distinct (map fst (best_records self)) \<Longrightarrow>
     max_size self = int K \<Longrightarrow> \<not> save_all self \<Longrightarrow> save_fn self = Some sf \<Longrightarrow>
     \<forall>c k. del_fn self c k = None \<Longrightarrow>
     \<exists>calls'. KBest_offers offers (self, calls) =
        (None, (self\<lparr>best_records := foldl (ref_offer K) (best_records self) offers\<rparr>, calls'))"
proof (induction offers arbitrary: self calls)
  case Nil
  show ?case by simp
next
  case (Cons x offers)
  let ?self1 = "self\<lparr>best_records := ref_offer K (best_records self) (fst x, snd x)\<rparr>"
  obtain calls1 where step: "KBest_add_checkpoint (fst x) (snd x) (self, calls) = (None, (?self1, calls1))"
    using KBest_add_checkpoint_ref[OF K Cons.prems(1-5) sok Cons.prems(6)] by blast
  have "\<exists>calls'. KBest_offers offers (?self1, calls1) =
        (None, (?self1\<lparr>best_records := foldl (ref_offer K) (best_records ?self1) offers\<rparr>, calls'))"
  proof (rule Cons.IH)
    show "length (best_records ?self1) \<le> K" using ref_offer_length[OF K Cons.prems(1)] by simp
    show "distinct (map fst (best_records ?self1))" using ref_offer_distinct[OF Cons.prems(2)] by simp
  qed (use Cons.prems in simp_all)
  then show ?case using step by simp
qed

text \<open>
  Claim C1.  For every sequence of (score, identifier) offers to a \<^verbatim>\<open>KBest\<close> retainer of
  capacity \<open>K \<ge> 1\<close> whose callbacks do not raise, the loop of offers returns normally and
  the retained mapping it ends with is the one of the reference simulation: an offer is
  accepted iff there is free capacity or its score is strictly lower than the worst retained
  score, and an accepted offer at capacity evicts the worst-scoring retained identifier before
  the new pair is inserted.  The two mappings are equal entry by entry, in insertion order.
\<close>

theorem KBest_online_correct:
  assumes "1 \<le> K" and "\<forall>c k. sf c k = None" and "\<forall>c k. df c k = None"
  shows "\<exists>calls. KBest_offers offers (KBest_init (int K) (Some sf) df, []) =
     (None, (KBest_init (int K) (Some sf) df\<lparr>best_records := foldl (ref_offer K) [] offers\<rparr>, calls))"
proof -
  let ?init = "KBest_init (int K) (Some sf) df :: ('a, 'b) KBest"
  have a: "length (best_records ?init) \<le> K" by (simp only: KBest_init_fields list.size)
  have b: "distinct (map fst (best_records ?init))" by (simp only: KBest_init_fields list.map distinct.simps)
  have c: "max_size ?init = int K" by (simp only: KBest_init_fields)
  have d: "\<not> save_all ?init" by (simp add: KBest_init_fields)
  have e: "save_fn ?init = Some sf" by (simp only: KBest_init_fields)
  have f: "\<forall>c k. del_fn ?init c k = None" using assms(3) by (simp add: KBest_init_fields)
  have "\<exists>calls'. KBest_offers offers (?init, []) =
        (None, (?init\<lparr>best_records := foldl (ref_offer K) (best_records ?init) offers\<rparr>, calls'))"
    by (rule KBest_offers_ref[OF assms(1,2) a b c d e f])
  then show ?thesis by (simp only: KBest_init_fields)
qed

theorem KBest_online_correct_witness:
  "(1::nat) \<le> 2 \<and> (\<forall>c k. (\<lambda>_ _. None :: error option) (c :: string call list) (k :: string) = None) \<and>
   (\<exists>calls. KBest_offers [(5::int, ''a''), (3, ''b''), (7, ''c''), (1, ''d'')]
        (KBest_init 2 (Some (\<lambda>_ _. None)) (\<lambda>_ _. None), []) =
     (None, (KBest_init 2 (Some (\<lambda>_ _. None)) (\<lambda>_ _. None)\<lparr>best_records := [(''b'', 3), (''d'', 1)]\<rparr>, calls)))"
proof -
  have h1: "(1::nat) \<le> 2" by simp
  have h2: "\<forall>c k. (\<lambda>_ _. None :: error option) (c :: string call list) (k :: string) = None" by simp
  have r: "foldl (ref_offer 2) [] [(5::int, ''a''), (3, ''b''), (7, ''c''), (1, ''d'')] = [(''b'', 3), (''d'', 1)]"
    by (simp add: ref_offer_def ref_worst_def ref_worst_score_def)
  have "\<exists>calls. KBest_offers [(5::int, ''a''), (3, ''b''), (7, ''c''), (1, ''d'')]
        (KBest_init (int 2) (Some (\<lambda>_ _. None)) (\<lambda>_ _. None), []) =
     (None, (KBest_init (int 2) (Some (\<lambda>_ _. None)) (\<lambda>_ _. None)
       \<lparr>best_records := foldl (ref_offer 2) [] [(5::int, ''a''), (3, ''b''), (7, ''c''), (1, ''d'')]\<rparr>, calls))"
    by (rule KBest_online_correct[OF h1 h2 h2])
  then have "\<exists>calls. KBest_offers [(5::int, ''a''), (3, ''b''), (7, ''c''), (1, ''d'')]
        (KBest_init 2 (Some (\<lambda>_ _. None)) (\<lambda>_ _. None), []) =
     (None, (KBest_init 2 (Some (\<lambda>_ _. None)) (\<lambda>_ _. None)\<lparr>best_records := [(''b'', 3), (''d'', 1)]\<rparr>, calls))"
    by (simp only: r of_nat_numeral)
  then show ?thesis using h1 h2 by blast
qed

section \<open>Latest-K keeps the last offers\<close>

lemma KLatest_add_checkpoint_ok:
  assumes K: "1 \<le> K" and len: "length (latest_records self) \<le> K"
    and ms: "max_size self = int K" and sa: "\<not> save_all self"
    and sf: "save_fn self = Some sf"
    and sok: "\<forall>c k. sf c k = None" and dok: "\<forall>c k. del_fn self c k = None"
  shows "KLatest_add_checkpoint path (self, calls) =
           (None, (self\<lparr>latest_records :=
                      drop (Suc (length (latest_records self)) - K) (latest_records self @ [path])\<rparr>,
                   calls @ map Delete (take (Suc (length (latest_records self)) - K) (latest_records self))
                     @ [Save path]))"
proof (cases "length (latest_records self) < K")
  case True
  then have nf: "\<not> KLatest_full self" using ms by (simp add: KLatest_full_def)
  have z: "Suc (length (latest_records self)) - K = 0" using True by simp
  show ?thesis using nf sf sok
    by (simp add: z KLatest_add_checkpoint_def KLatest_save_checkpoint_and_update_def
        KLatest_remove_earliest_def KLatest_add_new_def invoke_def)
next
  case False
  then have eq: "length (latest_records self) = K" using len by simp
  then have full: "KLatest_full self" using ms sa by (simp add: KLatest_full_def)
  obtain w rest where recs: "latest_records self = w # rest" using eq K
    by (cases "latest_records self") auto
  have Kq: "K = Suc (length rest)" using eq recs by simp
  show ?thesis using full sf sok dok recs
    by (simp add: Kq KLatest_add_checkpoint_def KLatest_save_checkpoint_and_update_def
        KLatest_remove_earliest_def KLatest_add_new_def invoke_def)
qed

lemma KLatest_offers_ok:
  assumes K: "1 \<le> K" and sok: "\<forall>c k. sf c k = None"
  shows "length (latest_records self) \<le> K \<Longrightarrow> max_size self = int K \<Longrightarrow> \<not> save_all self \<Longrightarrow>
     save_fn self = Some sf \<Longrightarrow> \<forall>c k. del_fn self c k = None \<Longrightarrow>
     \<exists>calls'. KLatest_offers ids (self, calls) =
        (None, (self\<lparr>latest_records :=
                   drop (length (latest_records self @ ids) - K) (latest_records self @ ids)\<rparr>, calls')) \<and>
        saved calls' = saved calls @ ids \<and>
        deleted calls' = deleted calls @ take (length (latest_records self @ ids) - K) (latest_records self @ ids)"
proof (induction ids arbitrary: self calls)
  case Nil
  then show ?case by simp
next
  case (Cons p ids)
  let ?recs = "latest_records self"
  let ?n = "Suc (length ?recs) - K"
  let ?recs1 = "drop ?n (?recs @ [p])"
  let ?self1 = "self\<lparr>latest_records := ?recs1\<rparr>"
  let ?calls1 = "calls @ map Delete (take ?n ?recs) @ [Save p]"
  have step: "KLatest_add_checkpoint p (self, calls) = (None, (?self1, ?calls1))"
    by (rule KLatest_add_checkpoint_ok[OF K Cons.prems(1-4) sok Cons.prems(5)])
  have len1: "length (latest_records ?self1) \<le> K" using Cons.prems(1) by simp
  have "\<exists>calls'. KLatest_offers ids (?self1, ?calls1) =
        (None, (?self1\<lparr>latest_records :=
                   drop (length (latest_records ?self1 @ ids) - K) (latest_records ?self1 @ ids)\<rparr>, calls')) \<and>
        saved calls' = saved ?calls1 @ ids \<and>
        deleted calls' = deleted ?calls1 @ take (length (latest_records ?self1 @ ids) - K) (latest_records ?self1 @ ids)"
  proof (rule Cons.IH[OF len1])
    show "\<forall>c k. del_fn ?self1 c k = None" using Cons.prems(5) by simp
  qed (use Cons.prems in simp_all)
  then obtain calls' where run: "KLatest_offers ids (?self1, ?calls1) =
        (None, (?self1\<lparr>latest_records :=
                   drop (length (?recs1 @ ids) - K) (?recs1 @ ids)\<rparr>, calls'))"
      and sv: "saved calls' = saved ?calls1 @ ids"
      and dl: "deleted calls' = deleted ?calls1 @ take (length (?recs1 @ ids) - K) (?recs1 @ ids)"
    by auto
  have sv_map: "\<And>xs. saved (map Delete xs) = []" by (induct_tac xs) simp_all
  have dl_map: "\<And>xs. deleted (map Delete xs) = xs" by (induct_tac xs) simp_all
  have A: "drop (length (?recs1 @ ids) - K) (?recs1 @ ids) = drop (length (?recs @ p # ids) - K) (?recs @ p # ids)"
    using Cons.prems(1) K by (cases "length ?recs < K") (auto simp: drop_Suc)
  have B: "take ?n ?recs @ take (length (?recs1 @ ids) - K) (?recs1 @ ids)
            = take (length (?recs @ p # ids) - K) (?recs @ p # ids)"
  proof (cases "length ?recs < K")
    case True
    then show ?thesis by simp
  next
    case False
    then have eq: "length ?recs = K" using Cons.prems(1) by simp
    then obtain w rest where recs: "?recs = w # rest" using K by (cases "?recs") auto
    have Kq: "K = Suc (length rest)" using eq recs by simp
    show ?thesis by (simp add: recs Kq)
  qed
  show ?case using step run sv dl A B
    by (simp add: saved_append deleted_append sv_map dl_map)
qed

text \<open>
  Claim C2.  For every sequence of identifiers offered to a \<^verbatim>\<open>KLatest\<close> retainer of capacity
  \<open>K \<ge> 1\<close> whose callbacks do not raise, the loop of offers returns normally, the retained
  sequence is the last \<open>min n K\<close> of the \<open>n\<close> offered identifiers in offer order,
  \<^verbatim>\<open>save_fn\<close> has been called on every offered identifier in offer order, and
  \<^verbatim>\<open>del_fn\<close> has been called exactly on the identifiers before that suffix, oldest first.
  Every prefix of a sequence of offers is itself such a sequence, so this holds after each
  offer; the identifiers need not even be distinct.
\<close>

theorem KLatest_keeps_last_K:
  assumes "1 \<le> K" and "\<forall>c k. sf c k = None" and "\<forall>c k. df c k = None"
  shows "\<exists>calls. KLatest_offers ids (KLatest_init (int K) (Some sf) df, []) =
       (None, (KLatest_init (int K) (Some sf) df
                 \<lparr>latest_records := drop (length ids - min (length ids) K) ids\<rparr>, calls)) \<and>
       saved calls = ids \<and>
       deleted calls = take (length ids - min (length ids) K) ids"
proof -
  let ?init = "KLatest_init (int K) (Some sf) df :: 'a KLatest"
  have a: "length (latest_records ?init) \<le> K" by (simp add: KLatest_init_fields)
  have c: "max_size ?init = int K" by (simp only: KLatest_init_fields)
  have d: "\<not> save_all ?init" by (simp add: KLatest_init_fields)
  have e: "save_fn ?init = Some sf" by (simp only: KLatest_init_fields)
  have f: "\<forall>c k. del_fn ?init c k = None" using assms(3) by (simp add: KLatest_init_fields)
  have m: "length ids - min (length ids) K = length ids - K" by simp
  have "\<exists>calls'. KLatest_offers ids (?init, []) =
        (None, (?init\<lparr>latest_records :=
                   drop (length (latest_records ?init @ ids) - K) (latest_records ?init @ ids)\<rparr>, calls')) \<and>
        saved calls' = saved [] @ ids \<and>
        deleted calls' = deleted [] @ take (length (latest_records ?init @ ids) - K) (latest_records ?init @ ids)"
    by (rule KLatest_offers_ok[OF assms(1,2) a c d e f])
  then show ?thesis by (simp add: KLatest_init_fields m)
qed

theorem KLatest_keeps_last_K_witness:
  "(1::nat) \<le> 3 \<and> (\<forall>c k. (\<lambda>_ _. None :: error option) (c :: string call list) (k :: string) = None) \<and>
   (\<exists>calls. KLatest_offers [''x'', ''y'', ''z'', ''w'']
        (KLatest_init 3 (Some (\<lambda>_ _. None)) (\<lambda>_ _. None), []) =
     (None, (KLatest_init 3 (Some (\<lambda>_ _. None)) (\<lambda>_ _. None)
               \<lparr>latest_records := [''y'', ''z'', ''w'']\<rparr>, calls)) \<and>
     saved calls = [''x'', ''y'', ''z'', ''w''] \<and> deleted calls = [''x''])"
proof -
  have h1: "(1::nat) \<le> 3" by simp
  have h2: "\<forall>c k. (\<lambda>_ _. None :: error option) (c :: string call list) (k :: string) = None" by simp
  have "\<exists>calls. KLatest_offers [''x'', ''y'', ''z'', ''w'']
        (KLatest_init (int 3) (Some (\<lambda>_ _. None)) (\<lambda>_ _. None), []) =
     (None, (KLatest_init (int 3) (Some (\<lambda>_ _. None)) (\<lambda>_ _. None)
        \<lparr>latest_records := drop (length [''x'', ''y'', ''z'', ''w''] - min (length [''x'', ''y'', ''z'', ''w'']) 3)
            [''x'', ''y'', ''z'', ''w'']\<rparr>, calls)) \<and>
       saved calls = [''x'', ''y'', ''z'', ''w''] \<and>
       deleted calls = take (length [''x'', ''y'', ''z'', ''w''] - min (length [''x'', ''y'', ''z'', ''w'']) 3)
            [''x'', ''y'', ''z'', ''w'']"
    by (rule KLatest_keeps_last_K[OF h1 h2 h2])
  then have "\<exists>calls. KLatest_offers [''x'', ''y'', ''z'', ''w'']
        (KLatest_init 3 (Some (\<lambda>_ _. None)) (\<lambda>_ _. None), []) =
     (None, (KLatest_init 3 (Some (\<lambda>_ _. None)) (\<lambda>_ _. None)
               \<lparr>latest_records := [''y'', ''z'', ''w'']\<rparr>, calls)) \<and>
     saved calls = [''x'', ''y'', ''z'', ''w''] \<and> deleted calls = [''x'']"
    by simp
  then show ?thesis using h1 h2 by blast
qed

section \<open>The capacity bound\<close>

lemma KBest_add_checkpoint_bound:
  assumes b: "int (length (best_records self)) \<le> max_size self" and sa: "\<not> save_all self"
    and r: "KBest_add_checkpoint metric path (self, calls) = (out, (self1, calls1))"
  shows "int (length (best_records self1)) \<le> max_size self1 \<and> \<not> save_all self1"
proof (cases "KBest_full self")
  case False
  then have lt: "int (length (best_records self)) < max_size self" using b sa
    by (simp add: KBest_full_def)
  have "int (length (dict_set path metric (best_records self))) \<le> max_size self"
    using lt by (simp add: length_dict_set)
  then show ?thesis using r False b sa
    by (auto simp: KBest_add_checkpoint_def KBest_should_save_def
        KBest_save_checkpoint_and_update_def KBest_remove_worst_def KBest_add_new_def
        invoke_def split: option.splits)
next
  case True
  then have eq: "int (length (best_records self)) = max_size self" by (simp add: KBest_full_def)
  show ?thesis
  proof (cases "dict_max_key (best_records self)")
    case (Inl e)
    then show ?thesis using r True b sa
      by (auto simp: KBest_add_checkpoint_def KBest_should_save_def)
  next
    case (Inr w)
    have mem: "w \<in> fst ` set (best_records self)" by (rule dict_max_key_mem[OF Inr])
    then have pos: "0 < length (best_records self)" by (cases "best_records self") auto
    have p1: "int (length (dict_pop w (best_records self))) \<le> max_size self"
      using mem eq by (simp add: length_dict_pop)
    have q1: "length (dict_pop w (best_records self)) = length (best_records self) - 1"
      using mem by (simp add: length_dict_pop)
    have q2: "length (dict_set path metric (dict_pop w (best_records self))) \<le>
                Suc (length (dict_pop w (best_records self)))"
      by (simp add: length_dict_set)
    have "length (dict_set path metric (dict_pop w (best_records self))) \<le> length (best_records self)"
      using q1 q2 pos by arith
    then have p2: "int (length (dict_set path metric (dict_pop w (best_records self)))) \<le> max_size self"
      using eq by simp
    show ?thesis using r True b sa Inr p1 p2
      by (auto simp: KBest_add_checkpoint_def KBest_should_save_def
          KBest_save_checkpoint_and_update_def KBest_remove_worst_def KBest_add_new_def
          invoke_def split: option.splits bool.splits if_splits)
  qed
qed

lemma KBest_offers_resumed_bound:
  "int (length (best_records (fst st))) \<le> max_size (fst st) \<Longrightarrow> \<not> save_all (fst st) \<Longrightarrow>
   int (length (best_records (fst (KBest_offers_resumed offers st)))) \<le>
     max_size (fst (KBest_offers_resumed offers st)) \<and>
   \<not> save_all (fst (KBest_offers_resumed offers st))"
proof (induction offers arbitrary: st)
  case Nil
  then show ?case by simp
next
  case (Cons x offers)
  obtain self calls where st: "st = (self, calls)" by (cases st)
  obtain out self1 calls1 where r:
    "KBest_add_checkpoint (fst x) (snd x) (self, calls) = (out, (self1, calls1))"
    by (metis prod.exhaust)
  have "int (length (best_records self1)) \<le> max_size self1 \<and> \<not> save_all self1"
    using KBest_add_checkpoint_bound[OF _ _ r] Cons.prems st by simp
  then show ?case using Cons.IH[of "(self1, calls1)"] r st by simp
qed

lemma KBest_add_checkpoint_max_size:
  "KBest_add_checkpoint metric path (self, calls) = (out, (self1, calls1)) \<Longrightarrow>
   max_size self1 = max_size self"
  by (auto simp: KBest_add_checkpoint_def KBest_should_save_def
      KBest_save_checkpoint_and_update_def KBest_remove_worst_def KBest_add_new_def
      invoke_def split: option.splits bool.splits if_splits sum.splits)

lemma KBest_offers_resumed_max_size:
  "max_size (fst (KBest_offers_resumed offers st)) = max_size (fst st)"
proof (induction offers arbitrary: st)
  case Nil
  show ?case by simp
next
  case (Cons x offers)
  obtain self calls where st: "st = (self, calls)" by (cases st)
  obtain out self1 calls1 where r:
    "KBest_add_checkpoint (fst x) (snd x) (self, calls) = (out, (self1, calls1))"
    by (metis prod.exhaust)
  show ?case using Cons.IH[of "(self1, calls1)"] KBest_add_checkpoint_max_size[OF r] r st by simp
qed

lemma KLatest_add_checkpoint_bound:
  assumes b: "int (length (latest_records self)) \<le> max_size self" and sa: "\<not> save_all self"
    and r: "KLatest_add_checkpoint path (self, calls) = (out, (self1, calls1))"
  shows "int (length (latest_records self1)) \<le> max_size self1 \<and> \<not> save_all self1"
  using assms
  by (auto simp: KLatest_add_checkpoint_def KLatest_full_def
      KLatest_save_checkpoint_and_update_def KLatest_remove_earliest_def KLatest_add_new_def
      invoke_def split: option.splits list.splits if_splits)

lemma KLatest_add_checkpoint_max_size:
  "KLatest_add_checkpoint path (self, calls) = (out, (self1, calls1)) \<Longrightarrow>
   max_size self1 = max_size self"
  by (auto simp: KLatest_add_checkpoint_def
      KLatest_save_checkpoint_and_update_def KLatest_remove_earliest_def KLatest_add_new_def
      invoke_def split: option.splits list.splits if_splits)

lemma KLatest_offers_resumed_bound:
  "int (length (latest_records (fst st))) \<le> max_size (fst st) \<Longrightarrow> \<not> save_all (fst st) \<Longrightarrow>
   int (length (latest_records (fst (KLatest_offers_resumed ids st)))) \<le>
     max_size (fst (KLatest_offers_resumed ids st)) \<and>
   \<not> save_all (fst (KLatest_offers_resumed ids st))"
proof (induction ids arbitrary: st)
  case Nil
  then show ?case by simp
next
  case (Cons x ids)
  obtain self calls where st: "st = (self, calls)" by (cases st)
  obtain out self1 calls1 where r:
    "KLatest_add_checkpoint x (self, calls) = (out, (self1, calls1))"
    by (metis prod.exhaust)
  have "int (length (latest_records self1)) \<le> max_size self1 \<and> \<not> save_all self1"
    using KLatest_add_checkpoint_bound[OF _ _ r] Cons.prems st by simp
  then show ?case using Cons.IH[of "(self1, calls1)"] r st by simp
qed

lemma KLatest_offers_resumed_max_size:
  "max_size (fst (KLatest_offers_resumed ids st)) = max_size (fst st)"
proof (induction ids arbitrary: st)
  case Nil
  show ?case by simp
next
  case (Cons x ids)
  obtain self calls where st: "st = (self, calls)" by (cases st)
  obtain out self1 calls1 where r:
    "KLatest_add_checkpoint x (self, calls) = (out, (self1, calls1))"
    by (metis prod.exhaust)
  show ?case using Cons.IH[of "(self1, calls1)"] KLatest_add_checkpoint_max_size[OF r] r st by simp
qed

lemma KBest_offers_bound:
  "int (length (best_records (fst st))) \<le> max_size (fst st) \<Longrightarrow> \<not> save_all (fst st) \<Longrightarrow>
   max_size (fst st) = m \<Longrightarrow>
   int (length (best_records (fst (snd (KBest_offers offers st))))) \<le> m"
proof (induction offers arbitrary: st)
  case Nil
  then show ?case by simp
next
  case (Cons x offers)
  obtain self calls where st: "st = (self, calls)" by (cases st)
  obtain out self1 calls1 where r:
    "KBest_add_checkpoint (fst x) (snd x) (self, calls) = (out, (self1, calls1))"
    by (metis prod.exhaust)
  have b1: "int (length (best_records self1)) \<le> max_size self1 \<and> \<not> save_all self1"
    using KBest_add_checkpoint_bound[OF _ _ r] Cons.prems st by simp
  have m1: "max_size self1 = m" using KBest_add_checkpoint_max_size[OF r] Cons.prems st by simp
  show ?case
  proof (cases out)
    case None
    then show ?thesis using Cons.IH[of "(self1, calls1)"] b1 m1 r st by simp
  next
    case (Some e)
    then show ?thesis using b1 m1 r st by simp
  qed
qed

lemma KLatest_offers_bound:
  "int (length (latest_records (fst st))) \<le> max_size (fst st) \<Longrightarrow> \<not> save_all (fst st) \<Longrightarrow>
   max_size (fst st) = m \<Longrightarrow>
   int (length (latest_records (fst (snd (KLatest_offers ids st))))) \<le> m"
proof (induction ids arbitrary: st)
  case Nil
  then show ?case by simp
next
  case (Cons x ids)
  obtain self calls where st: "st = (self, calls)" by (cases st)
  obtain out self1 calls1 where r:
    "KLatest_add_checkpoint x (self, calls) = (out, (self1, calls1))"
    by (metis prod.exhaust)
  have b1: "int (length (latest_records self1)) \<le> max_size self1 \<and> \<not> save_all self1"
    using KLatest_add_checkpoint_bound[OF _ _ r] Cons.prems st by simp
  have m1: "max_size self1 = m" using KLatest_add_checkpoint_max_size[OF r] Cons.prems st by simp
  show ?case
  proof (cases out)
    case None
    then show ?thesis using Cons.IH[of "(self1, calls1)"] b1 m1 r st by simp
  next
    case (Some e)
    then show ?thesis using b1 m1 r st by simp
  qed
qed

text \<open>
  Claim C3.  A \<^verbatim>\<open>KBest\<close> or \<^verbatim>\<open>KLatest\<close> retainer constructed with a bounded
  \<^verbatim>\<open>max_size\<close> (an integer \<open>\<ge> 0\<close>, so not the sentinel \<open>-1\<close>) never retains more than
  \<^verbatim>\<open>max_size\<close> identifiers: starting from the empty state, the bound holds after every
  sequence of offers, whatever the callbacks do, both when the caller stops at the first
  exception and when it catches the exception and goes on offering.
\<close>

theorem capacity_invariant:
  assumes "0 \<le> m"
  shows "int (length (best_records (fst (KBest_offers_resumed offers (KBest_init m sf df, []))))) \<le> m \<and>
         int (length (best_records (fst (snd (KBest_offers offers (KBest_init m sf df, [])))))) \<le> m \<and>
         int (length (latest_records (fst (KLatest_offers_resumed ids (KLatest_init m sg dg, []))))) \<le> m \<and>
         int (length (latest_records (fst (snd (KLatest_offers ids (KLatest_init m sg dg, [])))))) \<le> m"
proof -
  let ?b = "(KBest_init m sf df, []) :: ('a, 'b) KBest_state"
  let ?l = "(KLatest_init m sg dg, []) :: 'c KLatest_state"
  have b0: "int (length (best_records (fst ?b))) \<le> max_size (fst ?b)"
    using assms by (simp add: KBest_init_fields)
  have b1: "\<not> save_all (fst ?b)" using assms by (simp add: KBest_init_fields)
  have b2: "max_size (fst ?b) = m" by (simp add: KBest_init_fields)
  have l0: "int (length (latest_records (fst ?l))) \<le> max_size (fst ?l)"
    using assms by (simp add: KLatest_init_fields)
  have l1: "\<not> save_all (fst ?l)" using assms by (simp add: KLatest_init_fields)
  have l2: "max_size (fst ?l) = m" by (simp add: KLatest_init_fields)
  have A: "int (length (best_records (fst (KBest_offers_resumed offers ?b)))) \<le> m"
    using KBest_offers_resumed_bound[OF b0 b1, of offers] KBest_offers_resumed_max_size[of offers ?b] b2
    by simp
  have B: "int (length (best_records (fst (snd (KBest_offers offers ?b))))) \<le> m"
    by (rule KBest_offers_bound[OF b0 b1 b2])
  have C: "int (length (latest_records (fst (KLatest_offers_resumed ids ?l)))) \<le> m"
    using KLatest_offers_resumed_bound[OF l0 l1, of ids] KLatest_offers_resumed_max_size[of ids ?l] l2
    by simp
  have D: "int (length (latest_records (fst (snd (KLatest_offers ids ?l))))) \<le> m"
    by (rule KLatest_offers_bound[OF l0 l1 l2])
  show ?thesis using A B C D by blast
qed

theorem capacity_invariant_witness:
  "(0::int) \<le> 2 \<and>
   int (length (best_records (fst (KBest_offers_resumed [(5::int, ''a''), (3, ''b''), (1, ''c'')]
      (KBest_init 2 (Some (\<lambda>_ _. None)) (\<lambda>_ _. Some OSError), []))))) \<le> 2 \<and>
   int (length (latest_records (fst (KLatest_offers_resumed [''x'', ''y'', ''z'']
      (KLatest_init 2 (Some (\<lambda>_ _. None)) (\<lambda>_ _. Some OSError), []))))) \<le> 2"
proof -
  have h: "(0::int) \<le> 2" by simp
  show ?thesis
    using h capacity_invariant [OF h, of "[(5::int, ''a''), (3, ''b''), (1, ''c'')]"
        "Some (\<lambda>_ _. None)" "\<lambda>_ _. Some OSError" "[''x'', ''y'', ''z'']"
        "Some (\<lambda>_ _. None)" "\<lambda>_ _. Some OSError"]
    by blast
qed

section \<open>A failing delete callback\<close>




section \<open>Capacity zero\<close>

text \<open>
  Claim C5.  With \<^verbatim>\<open>max_size = 0\<close> the empty \<^verbatim>\<open>KBest\<close> retainer is already full, so
  \<^verbatim>\<open>should_save\<close> asks for the worst of no records: \<^verbatim>\<open>max\<close> of an empty dictionary
  raises \<^verbatim>\<open>ValueError\<close>, and so does every offer.  No callback is invoked and the state
  stays as it was, but the offer does not return normally.
\<close>

theorem KBest_capacity_zero_raises:
  "KBest_should_save metric (KBest_init 0 sf df) = Inl ValueError \<and>
   KBest_add_checkpoint metric path (KBest_init 0 sf df, calls) =
     (Some ValueError, (KBest_init 0 sf df, calls))"
  by (simp add: KBest_add_checkpoint_def KBest_should_save_def KBest_full_def KBest_init_def)

section \<open>Construction with a negative capacity\<close>

text \<open>
  Claim C6, as stated: a negative \<^verbatim>\<open>max_size\<close> other than \<open>-1\<close> is refused at
  construction.  It fails on the code: both constructors only store their arguments, so
  \<^verbatim>\<open>max_size = -2\<close> yields an object like any other value.
\<close>

theorem negative_max_size_refused_counterexample:
  "KBest_new (- 2) None returns =
     Inr (\<lparr>save_fn = None, del_fn = returns, max_size = - 2, save_all = False,
           best_records = [] :: (string \<times> int) list\<rparr>) \<and>
   KLatest_new (- 2) None returns =
     Inr (\<lparr>save_fn = None, del_fn = returns, max_size = - 2, save_all = False,
           latest_records = [] :: string list\<rparr>)"
  by (simp add: KBest_new_def KBest_init_def KLatest_new_def KLatest_init_def)

text \<open>
  Claim C6, amended.  Constructing a retainer never signals an error, whatever
  \<^verbatim>\<open>max_size\<close> is.  A negative \<^verbatim>\<open>max_size\<close> other than \<open>-1\<close> is stored as given with
  \<^verbatim>\<open>_save_all\<close> false, and the retainer is then never full, whatever it retains: no
  length equals a negative number.
\<close>

theorem negative_max_size_accepted:
  fixes d :: "('k \<times> 's) list" and l :: "'j list"
  assumes "m < 0" and "m \<noteq> - 1"
  shows "KBest_new m sf df = Inr (KBest_init m sf df) \<and>
         KLatest_new m sg dg = Inr (KLatest_init m sg dg) \<and>
         max_size (KBest_init m sf df) = m \<and> \<not> save_all (KBest_init m sf df) \<and>
         max_size (KLatest_init m sg dg) = m \<and> \<not> save_all (KLatest_init m sg dg) \<and>
         \<not> KBest_full (KBest_init m sf df\<lparr>best_records := d\<rparr>) \<and>
         \<not> KLatest_full (KLatest_init m sg dg\<lparr>latest_records := l\<rparr>)"
  using assms
  by (simp add: KBest_new_def KBest_init_def KLatest_new_def KLatest_init_def
      KBest_full_def KLatest_full_def)

theorem negative_max_size_accepted_witness:
  "(- 2 :: int) < 0 \<and> (- 2 :: int) \<noteq> - 1 \<and>
   KBest_new (- 2) None (\<lambda>_ _. None) = Inr (KBest_init (- 2) None (\<lambda>_ _. None) :: (string, int) KBest) \<and>
   \<not> KBest_full (KBest_init (- 2) None (\<lambda>_ _. None)\<lparr>best_records := [(''a'', 1::int)]\<rparr>) \<and>
   \<not> KLatest_full (KLatest_init (- 2) None (\<lambda>_ _. None)\<lparr>latest_records := [''x'']\<rparr>)"
proof -
  have h1: "(- 2 :: int) < 0" by simp
  have h2: "(- 2 :: int) \<noteq> - 1" by simp
  show ?thesis
    using h1 h2 negative_max_size_accepted [OF h1 h2, of None "\<lambda>_ _. None" None "\<lambda>_ _. None"
        "[(''a'', 1::int)]" "[''x'']"]
    by blast
qed

section \<open>The unbounded sentinel\<close>

lemma deleted_map_Save: "deleted (map Save xs) = []"
  by (induction xs) simp_all

lemma saved_map_Save: "saved (map Save xs) = xs"
  by (induction xs) simp_all

lemma KBest_add_checkpoint_unbounded:
  assumes "save_all self" and "save_fn self = Some sf" and "\<forall>c k. sf c k = None"
  shows "KBest_add_checkpoint s k (self, calls) =
           (None, (self\<lparr>best_records := dict_set k s (best_records self)\<rparr>, calls @ [Save k]))"
  using assms
  by (simp add: KBest_add_checkpoint_def KBest_should_save_def KBest_full_def
      KBest_save_checkpoint_and_update_def KBest_remove_worst_def KBest_add_new_def invoke_def)

lemma KBest_offers_unbounded:
  assumes sok: "\<forall>c k. sf c k = None"
  shows "save_all self \<Longrightarrow> save_fn self = Some sf \<Longrightarrow>
     KBest_offers offers (self, calls) =
       (None, (self\<lparr>best_records := foldl (\<lambda>d x. dict_set (snd x) (fst x) d) (best_records self) offers\<rparr>,
               calls @ map Save (map snd offers)))"
proof (induction offers arbitrary: self calls)
  case Nil
  show ?case by simp
next
  case (Cons x offers)
  let ?self1 = "self\<lparr>best_records := dict_set (snd x) (fst x) (best_records self)\<rparr>"
  have step: "KBest_add_checkpoint (fst x) (snd x) (self, calls) = (None, (?self1, calls @ [Save (snd x)]))"
    by (rule KBest_add_checkpoint_unbounded[OF Cons.prems sok])
  have "KBest_offers offers (?self1, calls @ [Save (snd x)]) =
       (None, (?self1\<lparr>best_records := foldl (\<lambda>d x. dict_set (snd x) (fst x) d) (best_records ?self1) offers\<rparr>,
               (calls @ [Save (snd x)]) @ map Save (map snd offers)))"
    by (rule Cons.IH) (use Cons.prems in simp_all)
  then show ?case using step by simp
qed

lemma keys_foldl_dict_set:
  "fst ` set (foldl (\<lambda>d x. dict_set (snd x) (fst x) d) d0 offers) = fst ` set d0 \<union> snd ` set offers"
proof (induction offers arbitrary: d0)
  case Nil
  show ?case by simp
next
  case (Cons x offers)
  show ?case by (simp add: Cons.IH keys_dict_set del: dict_set.simps)
qed

lemma length_foldl_dict_set:
  "distinct (map fst d0) \<Longrightarrow>
   length (foldl (\<lambda>d x. dict_set (snd x) (fst x) d) d0 offers) = card (fst ` set d0 \<union> snd ` set offers)"
proof -
  assume "distinct (map fst d0)"
  then have "distinct (map fst (foldl (\<lambda>d x. dict_set (snd x) (fst x) d) d0 offers))"
    by (induction offers arbitrary: d0) (simp_all add: distinct_dict_set del: dict_set.simps)
  then have "card (set (map fst (foldl (\<lambda>d x. dict_set (snd x) (fst x) d) d0 offers))) =
      length (map fst (foldl (\<lambda>d x. dict_set (snd x) (fst x) d) d0 offers))"
    by (rule distinct_card)
  then show ?thesis using keys_foldl_dict_set[of d0 offers] by simp
qed

lemma KLatest_add_checkpoint_unbounded:
  assumes "save_all self" and "save_fn self = Some sf" and "\<forall>c k. sf c k = None"
  shows "KLatest_add_checkpoint k (self, calls) =
           (None, (self\<lparr>latest_records := latest_records self @ [k]\<rparr>, calls @ [Save k]))"
  using assms
  by (simp add: KLatest_add_checkpoint_def KLatest_full_def
      KLatest_save_checkpoint_and_update_def KLatest_remove_earliest_def KLatest_add_new_def invoke_def)

lemma KLatest_offers_unbounded:
  assumes sok: "\<forall>c k. sf c k = None"
  shows "save_all self \<Longrightarrow> save_fn self = Some sf \<Longrightarrow>
     KLatest_offers ids (self, calls) =
       (None, (self\<lparr>latest_records := latest_records self @ ids\<rparr>, calls @ map Save ids))"
proof (induction ids arbitrary: self calls)
  case Nil
  show ?case by simp
next
  case (Cons x ids)
  let ?self1 = "self\<lparr>latest_records := latest_records self @ [x]\<rparr>"
  have step: "KLatest_add_checkpoint x (self, calls) = (None, (?self1, calls @ [Save x]))"
    by (rule KLatest_add_checkpoint_unbounded[OF Cons.prems sok])
  have "KLatest_offers ids (?self1, calls @ [Save x]) =
       (None, (?self1\<lparr>latest_records := latest_records ?self1 @ ids\<rparr>, (calls @ [Save x]) @ map Save ids))"
    by (rule Cons.IH) (use Cons.prems in simp_all)
  then show ?case using step by simp
qed

text \<open>
  Claim C7.  A retainer constructed with \<^verbatim>\<open>max_size = -1\<close> whose \<^verbatim>\<open>save_fn\<close> does not
  raise accepts and retains every offer.  The loop of offers returns normally; the only
  calls are one \<^verbatim>\<open>save_fn\<close> per offer, in order, and \<^verbatim>\<open>del_fn\<close> is never called,
  whatever it would do.  \<^verbatim>\<open>KBest\<close> holds exactly the offered identifiers (one entry per
  distinct identifier, as many entries as distinct identifiers); \<^verbatim>\<open>KLatest\<close> holds the
  whole sequence of offers.
\<close>

theorem unbounded_retains_everything:
  fixes offers :: "('s::linorder \<times> 'k) list" and ids :: "'j list"
  assumes "\<forall>c k. sf c k = None" and "\<forall>c k. sg c k = None"
  shows "(\<exists>d. KBest_offers offers (KBest_init (- 1) (Some sf) df, []) =
            (None, (KBest_init (- 1) (Some sf) df\<lparr>best_records := d\<rparr>, map Save (map snd offers))) \<and>
            fst ` set d = snd ` set offers \<and> length d = card (snd ` set offers)) \<and>
         deleted (map Save (map snd offers)) = [] \<and>
         KLatest_offers ids (KLatest_init (- 1) (Some sg) dg, []) =
            (None, (KLatest_init (- 1) (Some sg) dg\<lparr>latest_records := ids\<rparr>, map Save ids)) \<and>
         deleted (map Save ids) = []"
proof -
  let ?b = "KBest_init (- 1) (Some sf) df :: ('k, 's) KBest"
  let ?l = "KLatest_init (- 1) (Some sg) dg :: 'j KLatest"
  let ?d = "foldl (\<lambda>d x. dict_set (snd x) (fst x) d) [] offers :: ('k \<times> 's) list"
  have b1: "save_all ?b" by (simp add: KBest_init_fields)
  have b2: "save_fn ?b = Some sf" by (simp only: KBest_init_fields)
  have l1: "save_all ?l" by (simp add: KLatest_init_fields)
  have l2: "save_fn ?l = Some sg" by (simp only: KLatest_init_fields)
  have "KBest_offers offers (?b, []) =
       (None, (?b\<lparr>best_records := foldl (\<lambda>d x. dict_set (snd x) (fst x) d) (best_records ?b) offers\<rparr>,
               [] @ map Save (map snd offers)))"
    by (rule KBest_offers_unbounded[OF assms(1) b1 b2])
  then have A: "KBest_offers offers (?b, []) = (None, (?b\<lparr>best_records := ?d\<rparr>, map Save (map snd offers)))"
    by (simp add: KBest_init_fields)
  have A1: "fst ` set ?d = snd ` set offers" using keys_foldl_dict_set[of "[]" offers] by simp
  have A2: "length ?d = card (snd ` set offers)" using length_foldl_dict_set[of "[]" offers] by simp
  have "KLatest_offers ids (?l, []) =
       (None, (?l\<lparr>latest_records := latest_records ?l @ ids\<rparr>, [] @ map Save ids))"
    by (rule KLatest_offers_unbounded[OF assms(2) l1 l2])
  then have B: "KLatest_offers ids (?l, []) = (None, (?l\<lparr>latest_records := ids\<rparr>, map Save ids))"
    by (simp add: KLatest_init_fields)
  have E: "\<exists>d. KBest_offers offers (?b, []) =
            (None, (?b\<lparr>best_records := d\<rparr>, map Save (map snd offers))) \<and>
            fst ` set d = snd ` set offers \<and> length d = card (snd ` set offers)"
    using A A1 A2 by (intro exI[of _ ?d] conjI)
  show ?thesis using E B by (simp only: deleted_map_Save simp_thms)
qed

theorem unbounded_retains_everything_witness:
  "(\<forall>c k. (\<lambda>_ _. None :: error option) (c :: string call list) (k :: string) = None) \<and>
   (\<exists>d. KBest_offers [(5::int, ''a''), (3, ''b''), (7, ''c'')]
           (KBest_init (- 1) (Some (\<lambda>_ _. None)) (\<lambda>_ _. Some OSError), []) =
         (None, (KBest_init (- 1) (Some (\<lambda>_ _. None)) (\<lambda>_ _. Some OSError)\<lparr>best_records := d\<rparr>,
                 [Save ''a'', Save ''b'', Save ''c''])) \<and>
         fst ` set d = {''a'', ''b'', ''c''}) \<and>
   KLatest_offers [''x'', ''y'', ''z'']
      (KLatest_init (- 1) (Some (\<lambda>_ _. None)) (\<lambda>_ _. Some OSError), []) =
    (None, (KLatest_init (- 1) (Some (\<lambda>_ _. None)) (\<lambda>_ _. Some OSError)
              \<lparr>latest_records := [''x'', ''y'', ''z'']\<rparr>, [Save ''x'', Save ''y'', Save ''z'']))"
proof -
  have h: "\<forall>c k. (\<lambda>_ _. None :: error option) (c :: string call list) (k :: string) = None" by simp
  note t = unbounded_retains_everything [OF h h, of "[(5::int, ''a''), (3, ''b''), (7, ''c'')]"
        "\<lambda>_ _. Some OSError" "[''x'', ''y'', ''z'']" "\<lambda>_ _. Some OSError"]
  have "(\<exists>d. KBest_offers [(5::int, ''a''), (3, ''b''), (7, ''c'')]
           (KBest_init (- 1) (Some (\<lambda>_ _. None)) (\<lambda>_ _. Some OSError), []) =
         (None, (KBest_init (- 1) (Some (\<lambda>_ _. None)) (\<lambda>_ _. Some OSError)\<lparr>best_records := d\<rparr>,
                 [Save ''a'', Save ''b'', Save ''c''])) \<and>
         fst ` set d = {''a'', ''b'', ''c''})"
    using t by (simp del: KBest_offers.simps) blast
  moreover have "KLatest_offers [''x'', ''y'', ''z'']
      (KLatest_init (- 1) (Some (\<lambda>_ _. None)) (\<lambda>_ _. Some OSError), []) =
    (None, (KLatest_init (- 1) (Some (\<lambda>_ _. None)) (\<lambda>_ _. Some OSError)
              \<lparr>latest_records := [''x'', ''y'', ''z'']\<rparr>, [Save ''x'', Save ''y'', Save ''z'']))"
    using t by (simp del: KLatest_offers.simps)
  ultimately show ?thesis using h by blast
qed

section \<open>Callbacks of one accepted offer\<close>

text \<open>
  What one accepted offer calls, when the callbacks do not raise and the capacity of the
  \<^verbatim>\<open>KLatest\<close> retainer is not 0: \<^verbatim>\<open>save_fn\<close> exactly once, as the last call of the offer;
  when the retainer is full, \<^verbatim>\<open>del_fn\<close> exactly once, on a retained identifier and before
  \<^verbatim>\<open>save_fn\<close>; with free capacity, no \<^verbatim>\<open>del_fn\<close>.  For \<^verbatim>\<open>KBest\<close> an offer is
  accepted when \<^verbatim>\<open>should_save\<close> answers \<^verbatim>\<open>True\<close>.
\<close>

lemma callbacks_per_accepted_offer:
  fixes self :: "('k, 's::linorder) KBest" and this :: "'j KLatest"
  assumes "KBest_should_save metric self = Inr True"
    and "save_fn self = Some sf" and "\<forall>c k. sf c k = None" and "\<forall>c k. del_fn self c k = None"
    and "max_size this \<noteq> 0"
    and "save_fn this = Some sg" and "\<forall>c k. sg c k = None" and "\<forall>c k. del_fn this c k = None"
  shows "(\<exists>self1 evicted. KBest_add_checkpoint metric path (self, calls) =
            (None, (self1, calls @ map Delete evicted @ [Save path])) \<and>
            set evicted \<subseteq> fst ` set (best_records self) \<and>
            length evicted = (if KBest_full self then 1 else 0)) \<and>
         (\<exists>this1 evicted. KLatest_add_checkpoint ident (this, log) =
            (None, (this1, log @ map Delete evicted @ [Save ident])) \<and>
            set evicted \<subseteq> set (latest_records this) \<and>
            length evicted = (if KLatest_full this then 1 else 0))"
proof -
  have A: "\<exists>self1 evicted. KBest_add_checkpoint metric path (self, calls) =
            (None, (self1, calls @ map Delete evicted @ [Save path])) \<and>
            set evicted \<subseteq> fst ` set (best_records self) \<and>
            length evicted = (if KBest_full self then 1 else 0)"
  proof (cases "KBest_full self")
    case False
    have "KBest_add_checkpoint metric path (self, calls) =
        (None, (self\<lparr>best_records := dict_set path metric (best_records self)\<rparr>,
                calls @ map Delete [] @ [Save path]))"
      using False assms(1-3)
      by (simp add: KBest_add_checkpoint_def KBest_save_checkpoint_and_update_def
          KBest_remove_worst_def KBest_add_new_def invoke_def)
    then show ?thesis using False by (intro exI[of _ "[]"] exI conjI) simp_all
  next
    case True
    obtain w where w: "dict_max_key (best_records self) = Inr w"
      using assms(1) True by (auto simp: KBest_should_save_def split: sum.splits)
    have mem: "w \<in> fst ` set (best_records self)" by (rule dict_max_key_mem[OF w])
    have "KBest_add_checkpoint metric path (self, calls) =
        (None, (self\<lparr>best_records := dict_set path metric (dict_pop w (best_records self))\<rparr>,
                calls @ map Delete [w] @ [Save path]))"
      using True w assms(1-4)
      by (simp add: KBest_add_checkpoint_def KBest_save_checkpoint_and_update_def
          KBest_remove_worst_def KBest_add_new_def invoke_def)
    then show ?thesis using True mem by (intro exI[of _ "[w]"] exI conjI) simp_all
  qed
  have B: "\<exists>this1 evicted. KLatest_add_checkpoint ident (this, log) =
            (None, (this1, log @ map Delete evicted @ [Save ident])) \<and>
            set evicted \<subseteq> set (latest_records this) \<and>
            length evicted = (if KLatest_full this then 1 else 0)"
  proof (cases "KLatest_full this")
    case False
    have "KLatest_add_checkpoint ident (this, log) =
        (None, (this\<lparr>latest_records := latest_records this @ [ident]\<rparr>,
                log @ map Delete [] @ [Save ident]))"
      using False assms(6,7)
      by (simp add: KLatest_add_checkpoint_def KLatest_save_checkpoint_and_update_def
          KLatest_remove_earliest_def KLatest_add_new_def invoke_def)
    then show ?thesis using False by (intro exI[of _ "[]"] exI conjI) simp_all
  next
    case True
    then have "latest_records this \<noteq> []" using assms(5) by (auto simp: KLatest_full_def)
    then obtain w rest where recs: "latest_records this = w # rest"
      by (cases "latest_records this") auto
    have "KLatest_add_checkpoint ident (this, log) =
        (None, (this\<lparr>latest_records := rest @ [ident]\<rparr>,
                log @ map Delete [w] @ [Save ident]))"
      using True recs assms(6-8)
      by (simp add: KLatest_add_checkpoint_def KLatest_save_checkpoint_and_update_def
          KLatest_remove_earliest_def KLatest_add_new_def invoke_def)
    then show ?thesis using True recs by (intro exI[of _ "[w]"] exI conjI) simp_all
  qed
  show ?thesis using A B by (rule conjI)
qed

lemma callbacks_per_accepted_offer_example:
  "KBest_should_save 3 (\<lparr>save_fn = Some (\<lambda>_ _. None), del_fn = (\<lambda>_ _. None), max_size = 1, save_all = False,
        best_records = [(''a'', 5::int)]\<rparr>) = Inr True \<and>
   KBest_full (\<lparr>save_fn = Some (\<lambda>_ _. None), del_fn = (\<lambda>_ _. None), max_size = 1, save_all = False,
        best_records = [(''a'', 5::int)]\<rparr>) \<and> KLatest_full (\<lparr>save_fn = Some (\<lambda>_ _. None), del_fn = (\<lambda>_ _. None), max_size = 1, save_all = False,
        latest_records = [''x'']\<rparr>) \<and>
   (\<exists>self1 evicted. KBest_add_checkpoint 3 ''b'' (\<lparr>save_fn = Some (\<lambda>_ _. None), del_fn = (\<lambda>_ _. None), max_size = 1, save_all = False,
        best_records = [(''a'', 5::int)]\<rparr>, [Save ''a'']) =
       (None, (self1, [Save ''a''] @ map Delete evicted @ [Save ''b''])) \<and>
       set evicted \<subseteq> {''a''} \<and> length evicted = 1) \<and>
   (\<exists>this1 evicted. KLatest_add_checkpoint ''y'' (\<lparr>save_fn = Some (\<lambda>_ _. None), del_fn = (\<lambda>_ _. None), max_size = 1, save_all = False,
        latest_records = [''x'']\<rparr>, [Save ''x'']) =
       (None, (this1, [Save ''x''] @ map Delete evicted @ [Save ''y''])) \<and>
       set evicted \<subseteq> {''x''} \<and> length evicted = 1)"
proof -
  let ?S = "\<lparr>save_fn = Some (\<lambda>_ _. None), del_fn = (\<lambda>_ _. None), max_size = 1, save_all = False,
        best_records = [(''a'', 5::int)]\<rparr> :: (string, int) KBest"
  let ?T = "\<lparr>save_fn = Some (\<lambda>_ _. None), del_fn = (\<lambda>_ _. None), max_size = 1, save_all = False,
        latest_records = [''x'']\<rparr> :: string KLatest"
  have h1: "KBest_should_save 3 ?S = Inr True"
    by (simp add: KBest_should_save_def KBest_full_def)
  have h2: "save_fn ?S = Some (\<lambda>_ _. None)" by simp
  have h3: "\<forall>c k. (\<lambda>_ _. None :: error option) (c :: string call list) (k :: string) = None" by simp
  have h4: "\<forall>c k. del_fn ?S c k = None" by simp
  have h5: "max_size ?T \<noteq> 0" by simp
  have h6: "save_fn ?T = Some (\<lambda>_ _. None)" by simp
  have h8: "\<forall>c k. del_fn ?T c k = None" by simp
  have f1: "KBest_full ?S" by (simp add: KBest_full_def)
  have f2: "KLatest_full ?T" by (simp add: KLatest_full_def)
  note t = callbacks_per_accepted_offer [OF h1 h2 h3 h4 h5 h6 h3 h8,
      of "''b''" "[Save ''a'']" "''y''" "[Save ''x'']"]
  show ?thesis using h1 f1 f2 t by simp
qed

text \<open>
  Claim C8.  Each accepted offer calls \<^verbatim>\<open>save_fn\<close> exactly once, and an accepted offer
  that arrives at bounded capacity calls \<^verbatim>\<open>del_fn\<close> exactly once, before \<^verbatim>\<open>save_fn\<close>.
  \<^verbatim>\<open>KLatest\<close> accepts every offer, but with \<^verbatim>\<open>max_size = 0\<close> the code does not get
  that far: the empty retainer is full, \<^verbatim>\<open>pop(0)\<close> on the empty list raises
  \<^verbatim>\<open>IndexError\<close>, and the offer ends there with no call of \<^verbatim>\<open>del_fn\<close> or
  \<^verbatim>\<open>save_fn\<close> and nothing retained, whatever the callbacks are.
\<close>

theorem KLatest_capacity_zero_offer_raises:
  "KLatest_full (KLatest_init 0 sf df) \<and>
   KLatest_add_checkpoint ident (KLatest_init 0 sf df, calls) =
     (Some IndexError, (KLatest_init 0 sf df, calls))"
  by (simp add: KLatest_add_checkpoint_def KLatest_save_checkpoint_and_update_def
      KLatest_remove_earliest_def KLatest_full_def KLatest_init_def)

section \<open>Rejected offers\<close>

text \<open>
  Claim C9.  When \<^verbatim>\<open>should_save\<close> answers \<^verbatim>\<open>False\<close> for the score, the offer of
  that score to a \<^verbatim>\<open>KBest\<close> retainer returns normally and changes nothing: no callback is
  invoked (the log of calls is the same), the retained mapping is the same, and \<^verbatim>\<open>full()\<close>
  answers the same before and after.
\<close>

theorem KBest_rejected_offer_is_noop:
  assumes "KBest_should_save metric self = Inr False"
  shows "KBest_add_checkpoint metric path (self, calls) = (None, (self, calls)) \<and>
         best_records (fst (snd (KBest_add_checkpoint metric path (self, calls)))) = best_records self \<and>
         snd (snd (KBest_add_checkpoint metric path (self, calls))) = calls \<and>
         KBest_full (fst (snd (KBest_add_checkpoint metric path (self, calls)))) = KBest_full self"
  using assms by (simp add: KBest_add_checkpoint_def)

theorem KBest_rejected_offer_is_noop_witness:
  "KBest_should_save (7::int)
     (\<lparr>save_fn = Some (\<lambda>_ _. None), del_fn = (\<lambda>_ _. None), max_size = 1, save_all = False,
       best_records = [(''a'', 5)]\<rparr>) = Inr False \<and>
   KBest_add_checkpoint (7::int) ''b''
     (\<lparr>save_fn = Some (\<lambda>_ _. None), del_fn = (\<lambda>_ _. None), max_size = 1, save_all = False,
       best_records = [(''a'', 5)]\<rparr>, [Save ''a'']) =
   (None, (\<lparr>save_fn = Some (\<lambda>_ _. None), del_fn = (\<lambda>_ _. None), max_size = 1, save_all = False,
       best_records = [(''a'', 5)]\<rparr>, [Save ''a'']))"
proof -
  have h: "KBest_should_save (7::int)
     (\<lparr>save_fn = Some (\<lambda>_ _. None), del_fn = (\<lambda>_ _. None), max_size = 1, save_all = False,
       best_records = [(''a'', 5)]\<rparr> :: (string, int) KBest) = Inr False"
    by (simp add: KBest_should_save_def KBest_full_def)
  show ?thesis using h KBest_rejected_offer_is_noop [OF h, of "''b''" "[Save ''a'']"] by simp
qed

section \<open>Offering an identifier twice\<close>

lemma map_of_dict_set: "map_of (dict_set k v d) = (map_of d)(k \<mapsto> v)"
  by (induction d) (auto simp: fun_eq_iff)

lemma keys_dict_set_present:
  "k \<in> fst ` set d \<Longrightarrow> map fst (dict_set k v d) = map fst d"
  by (induction d) auto

text \<open>
  Claim C10.  When a \<^verbatim>\<open>KBest\<close> retainer is not full and the offered identifier is already a
  key of the retained mapping, the offer (with a \<^verbatim>\<open>save_fn\<close> that does not raise on it)
  returns normally, calls \<^verbatim>\<open>save_fn\<close> on the identifier again and calls nothing else,
  so \<^verbatim>\<open>del_fn\<close> is not called; the identifier's score is overwritten by the new one, every
  other score stays, and the keys, their order and their number are unchanged.
\<close>

theorem KBest_duplicate_overwrites:
  fixes self :: "('k, 's::linorder) KBest"
  assumes "\<not> KBest_full self" and "path \<in> fst ` set (best_records self)"
    and "save_fn self = Some sf" and "sf calls path = None"
  shows "\<exists>d. KBest_add_checkpoint metric path (self, calls) =
           (None, (self\<lparr>best_records := d\<rparr>, calls @ [Save path])) \<and>
         map_of d = (map_of (best_records self))(path \<mapsto> metric) \<and>
         map fst d = map fst (best_records self) \<and>
         length d = length (best_records self)"
proof -
  let ?d = "dict_set path metric (best_records self)"
  have run: "KBest_add_checkpoint metric path (self, calls) =
           (None, (self\<lparr>best_records := ?d\<rparr>, calls @ [Save path]))"
    using assms(1,3,4)
    by (simp add: KBest_add_checkpoint_def KBest_should_save_def
        KBest_save_checkpoint_and_update_def KBest_remove_worst_def KBest_add_new_def invoke_def)
  have m: "map_of ?d = (map_of (best_records self))(path \<mapsto> metric)" by (rule map_of_dict_set)
  have k: "map fst ?d = map fst (best_records self)" by (rule keys_dict_set_present[OF assms(2)])
  have l: "length ?d = length (best_records self)" using assms(2) by (simp add: length_dict_set)
  show ?thesis using run m k l by (intro exI[of _ ?d] conjI)
qed

theorem KBest_duplicate_overwrites_witness:
  "\<not> KBest_full (\<lparr>save_fn = Some (\<lambda>_ _. None), del_fn = (\<lambda>_ _. None), max_size = 3,
       save_all = False, best_records = [(''a'', 5::int), (''b'', 4)]\<rparr>) \<and>
   ''a'' \<in> fst ` set [(''a'', 5::int), (''b'', 4)] \<and>
   KBest_add_checkpoint 9 ''a''
     (\<lparr>save_fn = Some (\<lambda>_ _. None), del_fn = (\<lambda>_ _. None), max_size = 3,
       save_all = False, best_records = [(''a'', 5::int), (''b'', 4)]\<rparr>, [Save ''a'', Save ''b'']) =
   (None, (\<lparr>save_fn = Some (\<lambda>_ _. None), del_fn = (\<lambda>_ _. None), max_size = 3,
       save_all = False, best_records = [(''a'', 9), (''b'', 4)]\<rparr>, [Save ''a'', Save ''b'', Save ''a'']))"
proof -
  let ?S = "\<lparr>save_fn = Some (\<lambda>_ _. None), del_fn = (\<lambda>_ _. None), max_size = 3,
       save_all = False, best_records = [(''a'', 5::int), (''b'', 4)]\<rparr> :: (string, int) KBest"
  have h1: "\<not> KBest_full ?S" by (simp add: KBest_full_def)
  have h2: "''a'' \<in> fst ` set (best_records ?S)" by simp
  have h3: "save_fn ?S = Some (\<lambda>_ _. None)" by simp
  have h4: "(\<lambda>_ _. None :: error option) [Save ''a'', Save ''b''] ''a'' = None" by simp
  obtain d where run: "KBest_add_checkpoint 9 ''a'' (?S, [Save ''a'', Save ''b'']) =
           (None, (?S\<lparr>best_records := d\<rparr>, [Save ''a'', Save ''b''] @ [Save ''a'']))"
      and m: "map_of d = (map_of (best_records ?S))(''a'' \<mapsto> 9)"
      and k: "map fst d = map fst (best_records ?S)"
    using KBest_duplicate_overwrites [OF h1 h2 h3 h4, of 9] by blast
  obtain va vb where d: "d = [(''a'', va), (''b'', vb)]" using k by (auto simp: map_eq_Cons_conv)
  have "map_of d ''a'' = Some 9" "map_of d ''b'' = Some 4" using m by simp_all
  then have "va = 9" "vb = 4" using d by simp_all
  then show ?thesis using h1 run d by simp
qed

end
